theory Spec2Isabelle
  imports Main "HOL-Library.Word" "HOL-Library.Sublist"
begin

section \<open>Strings\<close>

text \<open>
  A JavaScript string is a sequence of UTF-16 code units. The model uses \<open>string\<close>,
  reading each \<open>char\<close> as one code unit in the range 0..255 (Basic Latin and Latin-1
  Supplement). On that range \<open>String.prototype.trim\<close> and the regular-expression class
  \<open>\s\<close> agree on the white space characters TAB, LF, VT, FF, CR, SPACE and NBSP, and
  \<open>toLowerCase\<close> maps A..Z and the capital letters U+00C0..U+00DE (the multiplication
  sign U+00D7 apart) to the letter 32 positions later.
\<close>

definition isWhiteSpace :: "char \<Rightarrow> bool" where
  "isWhiteSpace c = ((of_char c :: nat) \<in> {9, 10, 11, 12, 13, 32, 160})"

definition lowerChar :: "char \<Rightarrow> char" where
  "lowerChar c =
     (let n = (of_char c :: nat)
      in if (65 \<le> n \<and> n \<le> 90) \<or> (192 \<le> n \<and> n \<le> 222 \<and> n \<noteq> 215)
         then char_of (n + 32) else c)"

definition toLowerCase :: "string \<Rightarrow> string" where
  "toLowerCase s = map lowerChar s"

definition trim :: "string \<Rightarrow> string" where
  "trim s = rev (dropWhile isWhiteSpace (rev (dropWhile isWhiteSpace s)))"

section \<open>EmailChipInput\<close>

text \<open>
  The pattern \<^verbatim>\<open>/^[^\s@]+@[^\s@]+\.[^\s@]+$/\<close>. \<open>notSpaceAt\<close> is the class
  \<^verbatim>\<open>[^\s@]\<close>, \<open>plusClass\<close> is \<^verbatim>\<open>[^\s@]+\<close> matched against a whole
  string, \<open>domainDotTld\<close> is \<^verbatim>\<open>[^\s@]+\.[^\s@]+\<close> and \<open>emailRegex_test\<close> is
  the anchored pattern: a string matches a sequence of pieces when it can be cut
  into consecutive parts matching the pieces, and \<open>splits\<close> lists every cut.
\<close>

definition notSpaceAt :: "char \<Rightarrow> bool" where
  "notSpaceAt c = (\<not> isWhiteSpace c \<and> c \<noteq> CHR ''@'')"

definition plusClass :: "string \<Rightarrow> bool" where
  "plusClass s = (s \<noteq> [] \<and> list_all notSpaceAt s)"

fun splits :: "'a list \<Rightarrow> ('a list \<times> 'a list) list" where
  "splits [] = [([], [])]"
| "splits (x # xs) = ([], x # xs) # map (\<lambda>(l, r). (x # l, r)) (splits xs)"

definition domainDotTld :: "string \<Rightarrow> bool" where
  "domainDotTld d =
     list_ex (\<lambda>(a, r). plusClass a \<and>
        (case r of [] \<Rightarrow> False | c # b \<Rightarrow> c = CHR ''.'' \<and> plusClass b)) (splits d)"

definition emailRegex_test :: "string \<Rightarrow> bool" where
  "emailRegex_test s =
     list_ex (\<lambda>(l, r). plusClass l \<and>
        (case r of [] \<Rightarrow> False | c # d \<Rightarrow> c = CHR ''@'' \<and> domainDotTld d)) (splits s)"

definition isValidEmail :: "string \<Rightarrow> bool" where
  "isValidEmail email = emailRegex_test (trim email)"

text \<open>
  The component: \<open>emails\<close> is the list it is given and hands back through
  \<open>onChange\<close>, \<open>inputValue\<close> and \<open>chipError\<close> (the \<open>error\<close> state) are its own.
\<close>

record chip =
  emails :: "string list"
  inputValue :: string
  chipError :: string

definition addEmail :: "string \<Rightarrow> chip \<Rightarrow> chip" where
  "addEmail email c =
     (let trimmedEmail = toLowerCase (trim email)
      in if trimmedEmail = [] then c
         else if \<not> isValidEmail trimmedEmail
           then c\<lparr>chipError := ''Please enter a valid email address''\<rparr>
         else if trimmedEmail \<in> set (emails c)
           then c\<lparr>chipError := ''This email has already been added''\<rparr>
         else c\<lparr>emails := emails c @ [trimmedEmail], inputValue := [], chipError := []\<rparr>)"

definition removeEmail :: "string \<Rightarrow> chip \<Rightarrow> chip" where
  "removeEmail emailToRemove c =
     c\<lparr>emails := filter (\<lambda>email. email \<noteq> emailToRemove) (emails c)\<rparr>"

text \<open>The shape the component keeps its entries in.\<close>

definition storedForm :: "string \<Rightarrow> bool" where
  "storedForm e = (trim e = e \<and> toLowerCase e = e \<and> emailRegex_test e)"

section \<open>useMediaRecorder\<close>

type_synonym byte = "8 word"

record blob =
  bytes :: "byte list"
  blobType :: string

definition blobSize :: "blob \<Rightarrow> nat" where
  "blobSize b = length (bytes b)"

text \<open>\<^verbatim>\<open>new Blob(parts, { type })\<close>: the parts' bytes, one after the other.\<close>

definition Blob :: "blob list \<Rightarrow> string \<Rightarrow> blob" where
  "Blob parts ty = \<lparr>bytes = concat (map bytes parts), blobType = ty\<rparr>"

text \<open>
  The platform's MediaRecorder, as far as the hook uses it: its state, whether the
  tracks of its stream are live, whether an \<open>onstop\<close> handler is installed, and
  whether a \<open>stop\<close> event is queued for it. \<open>pause()\<close> and \<open>resume()\<close> raise
  InvalidStateError on an inactive recorder and do nothing when the recorder already
  is in the state asked for; \<open>stop()\<close> makes a recording or paused recorder inactive
  and queues its \<open>stop\<close> event, and does nothing on an inactive recorder.
\<close>

datatype recorderState = Inactive | Recording | Paused

datatype error = InvalidStateError

record mediaRecorder =
  state :: recorderState
  tracksLive :: bool
  onstopSet :: bool
  stopPending :: bool

definition mrPause :: "mediaRecorder \<Rightarrow> error + mediaRecorder" where
  "mrPause mr = (if state mr = Inactive then Inl InvalidStateError else Inr (mr\<lparr>state := Paused\<rparr>))"

definition mrResume :: "mediaRecorder \<Rightarrow> error + mediaRecorder" where
  "mrResume mr = (if state mr = Inactive then Inl InvalidStateError else Inr (mr\<lparr>state := Recording\<rparr>))"

definition mrStop :: "mediaRecorder \<Rightarrow> mediaRecorder" where
  "mrStop mr = (if state mr = Inactive then mr else mr\<lparr>state := Inactive, stopPending := True\<rparr>)"

text \<open>
  The hook's state (\<open>isRecording\<close>, \<open>recordingTime\<close>, \<open>recError\<close> for \<open>error\<close>), its
  refs, and the window's interval timers: \<open>timers\<close> holds the ids of the live
  intervals, every one of them running the tick \<open>setRecordingTime(prev => prev + 1)\<close>,
  and \<open>timerSeq\<close> is the last id handed out (ids are positive, hence truthy).
\<close>

record session =
  isRecording :: bool
  recordingTime :: nat
  recError :: "string option"
  mediaRecorderRef :: "mediaRecorder option"
  chunksRef :: "blob list"
  intervalRef :: "nat option"
  timers :: "nat list"
  timerSeq :: nat

definition initialSession :: session where
  "initialSession = \<lparr>isRecording = False, recordingTime = 0, recError = None,
     mediaRecorderRef = None, chunksRef = [], intervalRef = None, timers = [], timerSeq = 0\<rparr>"

definition setInterval :: "session \<Rightarrow> nat \<times> session" where
  "setInterval s = (let i = Suc (timerSeq s) in (i, s\<lparr>timers := timers s @ [i], timerSeq := i\<rparr>))"

definition clearInterval :: "nat \<Rightarrow> session \<Rightarrow> session" where
  "clearInterval i s = s\<lparr>timers := removeAll i (timers s)\<rparr>"

text \<open>Interval \<open>i\<close> fires; one second passes when every live interval has fired once.\<close>

definition tick :: "nat \<Rightarrow> session \<Rightarrow> session" where
  "tick i s = (if i \<in> set (timers s) then s\<lparr>recordingTime := recordingTime s + 1\<rparr> else s)"

definition secondElapses :: "session \<Rightarrow> session" where
  "secondElapses s = fold tick (timers s) s"

text \<open>
  \<open>startRecording\<close>. Its \<open>try\<close> block can fail before anything is assigned
  (\<open>getUserMedia\<close> rejects, or the recorder cannot be built), or at \<open>start()\<close>, when
  the recorder and the empty chunk list are already in their refs; in both cases the
  \<open>catch\<close> branch sets the error.
\<close>

datatype startOutcome = AccessRefused | StartThrows | Granted

definition startRecording :: "startOutcome \<Rightarrow> session \<Rightarrow> session" where
  "startRecording outcome s =
     (let s0 = s\<lparr>recError := None\<rparr>
      in case outcome of
           AccessRefused \<Rightarrow>
             s0\<lparr>recError := Some ''Failed to start recording. Please check microphone permissions.''\<rparr>
         | StartThrows \<Rightarrow>
             s0\<lparr>mediaRecorderRef := Some \<lparr>state = Inactive, tracksLive = True, onstopSet = False, stopPending = False\<rparr>,
                chunksRef := [],
                recError := Some ''Failed to start recording. Please check microphone permissions.''\<rparr>
         | Granted \<Rightarrow>
             (let s1 = s0\<lparr>mediaRecorderRef := Some \<lparr>state = Recording, tracksLive = True, onstopSet = False, stopPending = False\<rparr>,
                           chunksRef := [], isRecording := True, recordingTime := 0\<rparr>;
                  (i, s2) = setInterval s1
              in s2\<lparr>intervalRef := Some i\<rparr>))"

definition ondataavailable :: "blob \<Rightarrow> session \<Rightarrow> session" where
  "ondataavailable data s =
     (if blobSize data > 0 then s\<lparr>chunksRef := chunksRef s @ [data]\<rparr> else s)"

text \<open>
  \<open>stopRecording\<close> returns a promise: fulfilled with null at once when idle, otherwise
  pending until the platform fires \<open>stop\<close> and the handler \<open>onstop\<close> fulfils it with
  the blob.
\<close>

datatype 'a promise = Pending | Fulfilled 'a

definition clearIntervalRef :: "session \<Rightarrow> session" where
  "clearIntervalRef s =
     (case intervalRef s of
        None \<Rightarrow> s
      | Some i \<Rightarrow> (clearInterval i s)\<lparr>intervalRef := None\<rparr>)"

definition stopRecording :: "session \<Rightarrow> blob option promise \<times> session" where
  "stopRecording s =
     (case mediaRecorderRef s of
        None \<Rightarrow> (Fulfilled None, s)
      | Some mr \<Rightarrow>
          if \<not> isRecording s then (Fulfilled None, s)
          else (Pending,
                clearIntervalRef
                  (s\<lparr>mediaRecorderRef := Some (mrStop (mr\<lparr>onstopSet := True\<rparr>)),
                     isRecording := False\<rparr>)))"

definition onstop :: "session \<Rightarrow> blob \<times> session" where
  "onstop s =
     (let b = Blob (chunksRef s) ''audio/webm''
      in (b, case mediaRecorderRef s of
               None \<Rightarrow> s
             | Some mr \<Rightarrow> s\<lparr>mediaRecorderRef := Some (mr\<lparr>tracksLive := False\<rparr>)\<rparr>))"

text \<open>
  The platform delivers the queued \<open>stop\<close> event: nothing happens unless one is
  queued; the handler runs if one is installed, and fulfils the promise of the
  \<open>stopRecording\<close> call that installed it.
\<close>

definition fireStop :: "session \<Rightarrow> blob option promise \<times> session" where
  "fireStop s =
     (case mediaRecorderRef s of
        None \<Rightarrow> (Pending, s)
      | Some mr \<Rightarrow>
          if \<not> stopPending mr then (Pending, s)
          else
            (let s1 = s\<lparr>mediaRecorderRef := Some (mr\<lparr>stopPending := False\<rparr>)\<rparr>
             in if onstopSet mr
                then (case onstop s1 of (b, s2) \<Rightarrow> (Fulfilled (Some b), s2))
                else (Pending, s1)))"

text \<open>
  \<open>await stopRecording()\<close>: the call, then the chunks the platform still delivers
  (\<open>late\<close>), then the \<open>stop\<close> event. The result is what the caller's promise holds.
\<close>

definition awaitStopRecording :: "blob list \<Rightarrow> session \<Rightarrow> blob option promise \<times> session" where
  "awaitStopRecording late s =
     (case stopRecording s of
        (Fulfilled v, s1) \<Rightarrow> (Fulfilled v, s1)
      | (Pending, s1) \<Rightarrow> fireStop (fold ondataavailable late s1))"

definition pauseRecording :: "session \<Rightarrow> error + session" where
  "pauseRecording s =
     (case mediaRecorderRef s of
        None \<Rightarrow> Inr s
      | Some mr \<Rightarrow>
          if \<not> isRecording s then Inr s
          else (case mrPause mr of
                  Inl e \<Rightarrow> Inl e
                | Inr mr' \<Rightarrow> Inr (clearIntervalRef (s\<lparr>mediaRecorderRef := Some mr'\<rparr>))))"

definition resumeRecording :: "session \<Rightarrow> error + session" where
  "resumeRecording s =
     (case mediaRecorderRef s of
        None \<Rightarrow> Inr s
      | Some mr \<Rightarrow>
          if \<not> isRecording s then Inr s
          else (case mrResume mr of
                  Inl e \<Rightarrow> Inl e
                | Inr mr' \<Rightarrow>
                    (let (i, s1) = setInterval (s\<lparr>mediaRecorderRef := Some mr'\<rparr>)
                     in Inr (s1\<lparr>intervalRef := Some i\<rparr>))))"

text \<open>What can happen between \<open>startRecording\<close> and \<open>stopRecording\<close>.\<close>

datatype event = DataAvailable blob | TimerFires nat | PauseClicked | ResumeClicked

fun handle :: "event \<Rightarrow> session \<Rightarrow> error + session" where
  "handle (DataAvailable b) s = Inr (ondataavailable b s)"
| "handle (TimerFires i) s = Inr (tick i s)"
| "handle PauseClicked s = pauseRecording s"
| "handle ResumeClicked s = resumeRecording s"

fun run :: "event list \<Rightarrow> session \<Rightarrow> error + session" where
  "run [] s = Inr s"
| "run (e # es) s = (case handle e s of Inl err \<Rightarrow> Inl err | Inr s' \<Rightarrow> run es s')"

fun delivered :: "event list \<Rightarrow> blob list" where
  "delivered [] = []"
| "delivered (DataAvailable b # es) = b # delivered es"
| "delivered (_ # es) = delivered es"

text \<open>A recording is under way: \<open>isRecording\<close> holds and the recorder is recording or paused.\<close>

definition underWay :: "session \<Rightarrow> bool" where
  "underWay s =
     (isRecording s \<and>
      (case mediaRecorderRef s of None \<Rightarrow> False | Some mr \<Rightarrow> state mr \<noteq> Inactive))"

section \<open>ApiService\<close>

text \<open>
  \<^verbatim>\<open>JSON.stringify\<close> on an array of strings: each string quoted, with the quotation
  mark, the backslash and the control characters escaped, joined by commas
  inside brackets.
\<close>

definition hexDigit :: "nat \<Rightarrow> char" where
  "hexDigit n = (if n < 10 then char_of (48 + n) else char_of (87 + n))"

definition jsonEscape :: "char \<Rightarrow> string" where
  "jsonEscape c =
     (let n = (of_char c :: nat)
      in if n = 34 then [CHR 0x5C, CHR 0x22]
         else if n = 92 then [CHR 0x5C, CHR 0x5C]
         else if n = 8 then [CHR 0x5C, CHR ''b'']
         else if n = 12 then [CHR 0x5C, CHR ''f'']
         else if n = 10 then [CHR 0x5C, CHR ''n'']
         else if n = 13 then [CHR 0x5C, CHR ''r'']
         else if n = 9 then [CHR 0x5C, CHR ''t'']
         else if n < 32 then [CHR 0x5C, CHR ''u'', CHR ''0'', CHR ''0'', hexDigit (n div 16), hexDigit (n mod 16)]
         else [c])"

definition jsonQuote :: "string \<Rightarrow> string" where
  "jsonQuote s = CHR 0x22 # concat (map jsonEscape s) @ [CHR 0x22]"

fun commaJoin :: "string list \<Rightarrow> string" where
  "commaJoin [] = []"
| "commaJoin [x] = x"
| "commaJoin (x # y # ys) = x @ CHR '','' # commaJoin (y # ys)"

definition JSON_stringify :: "string list \<Rightarrow> string" where
  "JSON_stringify xs = CHR ''['' # commaJoin (map jsonQuote xs) @ [CHR '']'']"

record CreateMeetingRequest =
  title :: string
  date :: string
  participants :: "string list"
  recordingBlob :: blob

datatype formValue = FileValue blob | TextValue string

type_synonym formData = "(string \<times> formValue) list"

record request =
  url :: string
  httpMethod :: string
  headers :: "(string \<times> string) list"
  body :: formData

text \<open>
  What the service reads from its surroundings: the build mode behind
  \<open>API_CONFIG.BASE_URL\<close> and the access token in local storage (null when none is
  stored, which the template literal prints as \<open>null\<close>).
\<close>

record apiEnv =
  production :: bool
  accessToken :: "string option"

definition BASE_URL :: "apiEnv \<Rightarrow> string" where
  "BASE_URL env = (if production env then ''https://your-production-api.com/api'' else ''/api'')"

definition PROCESS_MEETING :: string where
  "PROCESS_MEETING = ''/meetings/process''"

definition bearer :: "apiEnv \<Rightarrow> string" where
  "bearer env = ''Bearer '' @ (case accessToken env of None \<Rightarrow> ''null'' | Some t \<Rightarrow> t)"

text \<open>The request \<open>processMeeting\<close> sends: the form it builds and the \<open>fetch\<close> call.\<close>

definition processMeetingForm :: "CreateMeetingRequest \<Rightarrow> formData" where
  "processMeetingForm meetingData =
     [(''recording'', FileValue (recordingBlob meetingData)),
      (''title'', TextValue (title meetingData)),
      (''date'', TextValue (date meetingData)),
      (''participants'', TextValue (JSON_stringify (participants meetingData)))]"

definition processMeetingRequest :: "apiEnv \<Rightarrow> CreateMeetingRequest \<Rightarrow> request" where
  "processMeetingRequest env meetingData =
     \<lparr>url = BASE_URL env @ PROCESS_MEETING,
      httpMethod = ''POST'',
      headers = [(''Authorization'', bearer env)],
      body = processMeetingForm meetingData\<rparr>"

text \<open>
  How the \<open>fetch\<close> settles: it rejects with an error (a network failure; the string
  is the error's message), or resolves with a response, of which the service reads
  the status and the JSON body. The body is unparsable (\<open>json()\<close> rejects with an
  error of that message), or an object of which the \<open>message\<close> and \<open>error\<close> fields
  are read (absent, or strings).
\<close>

datatype jsonBody = Unparsable string | Parsed "string option" "string option"

record response =
  status :: nat
  responseBody :: jsonBody

datatype fetchOutcome = FetchRejected string | FetchResolved response

definition ok :: "response \<Rightarrow> bool" where
  "ok r = (200 \<le> status r \<and> status r \<le> 299)"

definition truthy :: "string option \<Rightarrow> bool" where
  "truthy v = (case v of None \<Rightarrow> False | Some s \<Rightarrow> s \<noteq> [])"

text \<open>\<open>handleApiError\<close> always throws; the result is the message of the error thrown.\<close>

definition handleApiError :: "response \<Rightarrow> string" where
  "handleApiError r =
     (case responseBody r of
        Unparsable _ \<Rightarrow> ''An unexpected error occurred''
      | Parsed m e \<Rightarrow>
          if truthy m then the m
          else if truthy e then the e
          else ''An unexpected error occurred'')"

text \<open>
  The rest of \<open>processMeeting\<close>, once the \<open>fetch\<close> has settled: \<open>Inl\<close> is the message
  of the error thrown, \<open>Inr\<close> the parsed body returned.
\<close>

definition processMeetingResult :: "fetchOutcome \<Rightarrow> string + jsonBody" where
  "processMeetingResult outcome =
     (case outcome of
        FetchRejected msg \<Rightarrow> Inl msg
      | FetchResolved r \<Rightarrow>
          if \<not> ok r then Inl (handleApiError r)
          else (case responseBody r of
                  Unparsable msg \<Rightarrow> Inl msg
                | Parsed m e \<Rightarrow> Inr (Parsed m e)))"

section \<open>RecordingSubmissionModal\<close>

text \<open>
  The modal's state (\<open>modalEmails\<close> for \<open>emails\<close>) and its props
  \<open>recordingBlobProp\<close> and \<open>recordingDuration\<close>. A \<open>Date\<close> is kept as the string its
  \<open>toISOString()\<close> returns, which determines it.
\<close>

type_synonym jsDate = string

definition toISOString :: "jsDate \<Rightarrow> string" where
  "toISOString d = d"

record modal =
  modalEmails :: "string list"
  meetingTitle :: string
  meetingDate :: jsDate
  isSubmitting :: bool
  recordingBlobProp :: "blob option"
  recordingDuration :: nat

datatype effect =
    Toast string string bool
  | Fetch request
  | OnClose
  | Navigate string

text \<open>
  \<open>handleSubmit\<close> up to its \<open>await\<close>: the check of the required fields, and the
  request. The flag tells whether a request was sent.
\<close>

definition handleSubmitBegin :: "apiEnv \<Rightarrow> modal \<Rightarrow> bool \<times> modal \<times> effect list" where
  "handleSubmitBegin env m =
     (case recordingBlobProp m of
        None \<Rightarrow> (False, m, [Toast ''Missing Information'' ''Please fill in all required fields.'' True])
      | Some b \<Rightarrow>
          if modalEmails m = [] \<or> meetingTitle m = []
          then (False, m, [Toast ''Missing Information'' ''Please fill in all required fields.'' True])
          else
            (let meetingData = \<lparr>title = meetingTitle m, date = toISOString (meetingDate m),
                                participants = modalEmails m, recordingBlob = b\<rparr>
             in (True, m\<lparr>isSubmitting := True\<rparr>, [Fetch (processMeetingRequest env meetingData)])))"

text \<open>
  \<open>handleSubmit\<close> after its \<open>await\<close>: \<open>m0\<close> is the state the handler was called in
  (its closure), \<open>m\<close> the state when the request settles, \<open>now\<close> is \<open>new Date()\<close>.
\<close>

definition handleSubmitSettle :: "jsDate \<Rightarrow> fetchOutcome \<Rightarrow> modal \<Rightarrow> modal \<Rightarrow> modal \<times> effect list" where
  "handleSubmitSettle now outcome m0 m =
     (case processMeetingResult outcome of
        Inr result \<Rightarrow>
          (m\<lparr>modalEmails := [], meetingTitle := [], meetingDate := now, isSubmitting := False\<rparr>,
           [Toast ''Meeting Submitted Successfully!''
              (''Your meeting '' @ [CHR 0x22] @ meetingTitle m0 @ [CHR 0x22] @
               '' is being processed. You'' @ [CHR 0x27] @ ''ll see it in your dashboard shortly.'')
              False,
            OnClose, Navigate ''/''])
      | Inl msg \<Rightarrow>
          (m\<lparr>isSubmitting := False\<rparr>, [Toast ''Submission Failed'' msg True]))"

text \<open>One whole run of \<open>handleSubmit\<close>, nothing else happening before the request settles.\<close>

definition handleSubmit ::
  "apiEnv \<Rightarrow> jsDate \<Rightarrow> fetchOutcome \<Rightarrow> modal \<Rightarrow> modal \<times> effect list" where
  "handleSubmit env now outcome m =
     (case handleSubmitBegin env m of
        (False, m1, fx) \<Rightarrow> (m1, fx)
      | (True, m1, fx) \<Rightarrow>
          (case handleSubmitSettle now outcome m m1 of (m2, fx') \<Rightarrow> (m2, fx @ fx')))"

definition canSubmit :: "modal \<Rightarrow> bool" where
  "canSubmit m = (modalEmails m \<noteq> [] \<and> trim (meetingTitle m) \<noteq> [] \<and> \<not> isSubmitting m)"

text \<open>The submit button carries \<open>disabled={!canSubmit}\<close>: a click reaches the form only when enabled.\<close>

definition clickSubmit :: "apiEnv \<Rightarrow> modal \<Rightarrow> bool \<times> modal \<times> effect list" where
  "clickSubmit env m = (if canSubmit m then handleSubmitBegin env m else (False, m, []))"

fun isFetch :: "effect \<Rightarrow> bool" where
  "isFetch (Fetch _) = True"
| "isFetch _ = False"

definition networkCalls :: "effect list \<Rightarrow> nat" where
  "networkCalls fx = length (filter isFetch fx)"

text \<open>A draft, an environment and a moment used in the examples below.\<close>

definition sampleDraft :: modal where
  "sampleDraft =
     \<lparr>modalEmails = [''a@x.com''], meetingTitle = ''Standup'',
      meetingDate = ''2024-01-15T10:00:00.000Z'', isSubmitting = False,
      recordingBlobProp = Some \<lparr>bytes = [1, 2, 3], blobType = ''audio/webm''\<rparr>,
      recordingDuration = 7\<rparr>"

definition sampleEnv :: apiEnv where
  "sampleEnv = \<lparr>production = False, accessToken = Some ''token''\<rparr>"

definition sampleNow :: jsDate where
  "sampleNow = ''2024-01-16T09:00:00.000Z''"

text \<open>
  The modal over time. Its state starts from the \<open>useState\<close> defaults; the user edits
  the fields (also while a submission is under way: the inputs stay enabled), the
  parent passes new props, the submit button is clicked, and requests settle.
  \<open>handleSubmit\<close> is the form's \<open>onSubmit\<close> and the form is submitted by its submit
  button. \<open>inFlight\<close> holds, for every \<open>handleSubmit\<close> call waiting at its \<open>await\<close>,
  the state the call was made in: one entry for each request in flight. \<open>shown\<close> is
  everything done so far.
\<close>

record ui =
  modalState :: modal
  inFlight :: "modal list"
  shown :: "effect list"

definition initialUI :: "blob option \<Rightarrow> nat \<Rightarrow> jsDate \<Rightarrow> ui" where
  "initialUI b d now =
     \<lparr>modalState = \<lparr>modalEmails = [], meetingTitle = [], meetingDate = now, isSubmitting = False,
                     recordingBlobProp = b, recordingDuration = d\<rparr>,
      inFlight = [], shown = []\<rparr>"

datatype uiEvent =
    EmailsChanged "string list"
  | TitleChanged string
  | DateSelected jsDate
  | PropsChanged "blob option" nat
  | SubmitClicked
  | RequestSettles nat fetchOutcome jsDate

fun stepUI :: "apiEnv \<Rightarrow> uiEvent \<Rightarrow> ui \<Rightarrow> ui" where
  "stepUI env (EmailsChanged es) u = u\<lparr>modalState := (modalState u)\<lparr>modalEmails := es\<rparr>\<rparr>"
| "stepUI env (TitleChanged t) u = u\<lparr>modalState := (modalState u)\<lparr>meetingTitle := t\<rparr>\<rparr>"
| "stepUI env (DateSelected d) u = u\<lparr>modalState := (modalState u)\<lparr>meetingDate := d\<rparr>\<rparr>"
| "stepUI env (PropsChanged b d) u =
     u\<lparr>modalState := (modalState u)\<lparr>recordingBlobProp := b, recordingDuration := d\<rparr>\<rparr>"
| "stepUI env SubmitClicked u =
     (case clickSubmit env (modalState u) of
        (started, m, fx) \<Rightarrow>
          u\<lparr>modalState := m,
            inFlight := (if started then inFlight u @ [modalState u] else inFlight u),
            shown := shown u @ fx\<rparr>)"
| "stepUI env (RequestSettles i outcome now) u =
     (if i < length (inFlight u)
      then (case handleSubmitSettle now outcome (inFlight u ! i) (modalState u) of
              (m, fx) \<Rightarrow>
                u\<lparr>modalState := m,
                  inFlight := take i (inFlight u) @ drop (Suc i) (inFlight u),
                  shown := shown u @ fx\<rparr>)
      else u)"

fun runUI :: "apiEnv \<Rightarrow> uiEvent list \<Rightarrow> ui \<Rightarrow> ui" where
  "runUI env [] u = u"
| "runUI env (e # es) u = runUI env es (stepUI env e u)"

definition oneInFlight :: "ui \<Rightarrow> bool" where
  "oneInFlight u = (length (inFlight u) \<le> 1 \<and> (isSubmitting (modalState u) = (inFlight u \<noteq> [])))"

section \<open>Reading the participants field back\<close>

text \<open>
  The back end that reads the form is not part of this repository. To state that the
  \<open>participants\<close> text loses nothing, here is a reader for JSON arrays of strings
  (without white space between the tokens, code units below 256): \<open>unquote\<close> reads a
  string literal after its opening quotation mark and returns it with the rest of the
  input, \<open>parseElems\<close> reads the elements up to the closing bracket.
\<close>

definition hexVal :: "char \<Rightarrow> nat option" where
  "hexVal c =
     (let n = (of_char c :: nat)
      in if 48 \<le> n \<and> n \<le> 57 then Some (n - 48)
         else if 97 \<le> n \<and> n \<le> 102 then Some (n - 87)
         else if 65 \<le> n \<and> n \<le> 70 then Some (n - 55)
         else None)"

definition unescape :: "char \<Rightarrow> char option" where
  "unescape e =
     (if e = CHR 0x22 then Some (CHR 0x22)
      else if e = CHR 0x5C then Some (CHR 0x5C)
      else if e = CHR ''/'' then Some (CHR ''/'')
      else if e = CHR ''b'' then Some (CHR 0x08)
      else if e = CHR ''f'' then Some (CHR 0x0C)
      else if e = CHR ''n'' then Some (CHR 0x0A)
      else if e = CHR ''r'' then Some (CHR 0x0D)
      else if e = CHR ''t'' then Some (CHR 0x09)
      else None)"

definition consFst :: "'a \<Rightarrow> ('a list \<times> 'b) option \<Rightarrow> ('a list \<times> 'b) option" where
  "consFst c r = (case r of None \<Rightarrow> None | Some (s, rest) \<Rightarrow> Some (c # s, rest))"

fun unquote :: "string \<Rightarrow> (string \<times> string) option" where
  "unquote [] = None"
| "unquote (c # cs) =
     (if c = CHR 0x22 then Some ([], cs)
      else if c = CHR 0x5C then
        (case cs of
           [] \<Rightarrow> None
         | e # cs' \<Rightarrow>
             if e = CHR ''u'' then
               (case cs' of
                  h1 # h2 # h3 # h4 # cs'' \<Rightarrow>
                    (case (hexVal h1, hexVal h2, hexVal h3, hexVal h4) of
                       (Some a, Some b, Some x, Some y) \<Rightarrow>
                         if a = 0 \<and> b = 0 then consFst (char_of (16 * x + y)) (unquote cs'') else None
                     | _ \<Rightarrow> None)
                | _ \<Rightarrow> None)
             else (case unescape e of
                     None \<Rightarrow> None
                   | Some d \<Rightarrow> consFst d (unquote cs')))
      else if (of_char c :: nat) < 32 then None
      else consFst c (unquote cs))"

lemma consFst_Some: "consFst c r = Some (x, rest) \<longleftrightarrow> (\<exists>x'. r = Some (x', rest) \<and> x = c # x')"
  by (auto simp: consFst_def split: option.splits)

lemma unquote_shorter: "unquote cs = Some (x, rest) \<Longrightarrow> length rest < length cs"
proof (induction cs arbitrary: x rest rule: unquote.induct)
  case 1
  thus ?case by simp
next
  case (2 c cs)
  show ?case
    using "2.prems" "2.IH"
    by (fastforce simp: consFst_Some split: if_splits list.splits option.splits)
qed

function parseElems :: "string \<Rightarrow> string list option" where
  "parseElems s =
     (case s of
        [] \<Rightarrow> None
      | c # cs \<Rightarrow>
          if c \<noteq> CHR 0x22 then None
          else (case unquote cs of
                  None \<Rightarrow> None
                | Some (x, rest) \<Rightarrow>
                    (case rest of
                       [] \<Rightarrow> None
                     | d # rest' \<Rightarrow>
                         if d = CHR '']'' \<and> rest' = [] then Some [x]
                         else if d = CHR '','' then
                           (case parseElems rest' of None \<Rightarrow> None | Some xs \<Rightarrow> Some (x # xs))
                         else None)))"
  by pat_completeness auto
termination
proof (relation "measure length")
  show "wf (measure length)" by simp
next
  fix s :: string and c cs x2 x rest d rest'
  assume "s = c # cs" "unquote cs = Some x2" "(x, rest) = x2" "rest = d # rest'"
  hence "length rest < length cs" using unquote_shorter [of cs x rest] by simp
  thus "(rest', s) \<in> measure length" using \<open>s = c # cs\<close> \<open>rest = d # rest'\<close> by simp
qed

declare parseElems.simps [simp del]

definition JSON_parse :: "string \<Rightarrow> string list option" where
  "JSON_parse s =
     (case s of
        [] \<Rightarrow> None
      | c # cs \<Rightarrow>
          if c \<noteq> CHR ''['' then None
          else if cs = [CHR '']''] then Some []
          else parseElems cs)"

section \<open>Properties of the string operations\<close>

lemma of_char_lowerChar:
  "(of_char (lowerChar c) :: nat) =
     (let n = of_char c
      in if (65 \<le> n \<and> n \<le> 90) \<or> (192 \<le> n \<and> n \<le> 222 \<and> n \<noteq> 215) then n + 32 else n)"
  by (simp add: lowerChar_def Let_def)

lemma char_eq_code: "(c = d) \<longleftrightarrow> ((of_char c :: nat) = of_char d)"
  by simp

lemma lowerChar_at: "lowerChar c = CHR ''@'' \<longleftrightarrow> c = CHR ''@''"
  by (simp add: char_eq_code [of _ "CHR ''@''"] of_char_lowerChar Let_def)

lemma lowerChar_idem: "lowerChar (lowerChar c) = lowerChar c"
  by (simp add: char_eq_code [of "lowerChar (lowerChar c)"] of_char_lowerChar Let_def)

lemma isWhiteSpace_lowerChar: "isWhiteSpace (lowerChar c) = isWhiteSpace c"
  by (simp add: isWhiteSpace_def of_char_lowerChar Let_def)

lemma notSpaceAt_lowerChar: "notSpaceAt (lowerChar c) = notSpaceAt c"
  by (simp add: notSpaceAt_def isWhiteSpace_lowerChar lowerChar_at)

lemma toLowerCase_idem: "toLowerCase (toLowerCase s) = toLowerCase s"
  by (simp add: toLowerCase_def lowerChar_idem)

lemma toLowerCase_append: "toLowerCase (a @ b) = toLowerCase a @ toLowerCase b"
  by (simp add: toLowerCase_def)

lemma plusClass_toLowerCase: "plusClass (toLowerCase s) = plusClass s"
  by (simp add: plusClass_def toLowerCase_def list_all_iff notSpaceAt_lowerChar)

lemma trim_toLowerCase: "trim (toLowerCase s) = toLowerCase (trim s)"
proof -
  have "isWhiteSpace \<circ> lowerChar = isWhiteSpace"
    by (rule ext) (simp add: isWhiteSpace_lowerChar)
  thus ?thesis
    by (simp add: trim_def toLowerCase_def dropWhile_map rev_map)
qed

lemma trim_self_iff: "trim s = s \<longleftrightarrow> (s = [] \<or> (\<not> isWhiteSpace (hd s) \<and> \<not> isWhiteSpace (last s)))"
proof (cases "s = []")
  case True
  thus ?thesis by (simp add: trim_def)
next
  case False
  show ?thesis
  proof (cases "isWhiteSpace (hd s)")
    case True
    have "length (trim s) \<le> length (dropWhile isWhiteSpace s)"
      unfolding trim_def length_rev
      by (rule order_trans [OF length_dropWhile_le]) simp
    moreover have "length (dropWhile isWhiteSpace s) < length s"
      using False True by (cases s) (simp_all add: le_imp_less_Suc length_dropWhile_le)
    ultimately have "trim s \<noteq> s" by auto
    thus ?thesis using True False by simp
  next
    case hd: False
    hence d: "dropWhile isWhiteSpace s = s"
      by (simp add: dropWhile_eq_self_iff)
    have "trim s = s \<longleftrightarrow> dropWhile isWhiteSpace (rev s) = rev s"
      unfolding trim_def d by (metis rev_rev_ident)
    also have "\<dots> \<longleftrightarrow> \<not> isWhiteSpace (last s)"
      using False by (simp add: dropWhile_eq_self_iff hd_rev)
    finally show ?thesis using hd False by simp
  qed
qed

lemma trim_idem: "trim (trim s) = trim s"
proof -
  let ?t = "dropWhile isWhiteSpace s"
  let ?u = "dropWhile isWhiteSpace (rev ?t)"
  have u: "?u = [] \<or> \<not> isWhiteSpace (hd ?u)"
    by (metis hd_dropWhile)
  have t: "?t = [] \<or> \<not> isWhiteSpace (hd ?t)"
    by (metis hd_dropWhile)
  show ?thesis
  proof (cases "?u = []")
    case True
    hence e: "trim s = []" by (simp add: trim_def)
    have "trim [] = []" by (simp add: trim_def)
    with e show ?thesis by simp
  next
    case False
    have tne: "?t \<noteq> []"
    proof
      assume "?t = []"
      hence "?u = []" by (simp only: rev.simps dropWhile.simps)
      with False show False by (simp only:)
    qed
    obtain ws where ws: "rev ?t = ws @ ?u"
      by (metis takeWhile_dropWhile_id)
    have "last ?u = last (rev ?t)" using False ws by (metis last_appendR)
    hence lu: "last ?u = hd ?t" using tne by (simp add: last_rev)
    have nu: "\<not> isWhiteSpace (hd ?u)" using u False by blast
    have nt: "\<not> isWhiteSpace (hd ?t)" using t tne by blast
    have h1: "hd (rev ?u) = last ?u" by (simp add: hd_rev)
    have h2: "last (rev ?u) = hd ?u" by (simp add: last_rev)
    have a: "\<not> isWhiteSpace (hd (rev ?u))" using h1 lu nt by simp
    have b: "\<not> isWhiteSpace (last (rev ?u))" using h2 nu by simp
    have "trim (rev ?u) = rev ?u" using a b by (simp only: trim_self_iff simp_thms)
    thus ?thesis unfolding trim_def .
  qed
qed

section \<open>Properties of the email pattern and of addEmail\<close>

lemma in_splits: "(l, r) \<in> set (splits s) \<longleftrightarrow> l @ r = s"
proof (induction s arbitrary: l)
  case Nil
  show ?case by simp
next
  case (Cons x xs)
  show ?case
  proof (cases l)
    case Nil
    thus ?thesis by auto
  next
    case (Cons y l')
    have "(y # l', r) \<in> (\<lambda>(l, r). (x # l, r)) ` set (splits xs) \<longleftrightarrow> y = x \<and> (l', r) \<in> set (splits xs)"
      by force
    thus ?thesis using Cons Cons.IH [of l'] by simp
  qed
qed

lemma list_ex_splits: "list_ex P (splits s) \<longleftrightarrow> (\<exists>l r. s = l @ r \<and> P (l, r))"
proof -
  have "(\<exists>x\<in>set (splits s). P x) \<longleftrightarrow> (\<exists>l r. (l, r) \<in> set (splits s) \<and> P (l, r))"
    by (metis surj_pair)
  thus ?thesis unfolding list_ex_iff in_splits by blast
qed

lemma domainDotTld_iff:
  "domainDotTld d \<longleftrightarrow> (\<exists>a b. d = a @ CHR ''.'' # b \<and> plusClass a \<and> plusClass b)"
proof -
  have c: "(case r of [] \<Rightarrow> False | c # b \<Rightarrow> c = CHR ''.'' \<and> plusClass b) \<longleftrightarrow>
           (\<exists>b. r = CHR ''.'' # b \<and> plusClass b)" for r
    by (cases r) auto
  have "domainDotTld d \<longleftrightarrow>
        (\<exists>a r. d = a @ r \<and> plusClass a \<and> (\<exists>b. r = CHR ''.'' # b \<and> plusClass b))"
    unfolding domainDotTld_def list_ex_splits by (simp only: c split_conv)
  thus ?thesis by blast
qed

lemma emailRegex_test_iff:
  "emailRegex_test s \<longleftrightarrow>
     (\<exists>l a b. s = l @ CHR ''@'' # a @ CHR ''.'' # b \<and> plusClass l \<and> plusClass a \<and> plusClass b)"
proof -
  have c: "(case r of [] \<Rightarrow> False | c # d \<Rightarrow> c = CHR ''@'' \<and> domainDotTld d) \<longleftrightarrow>
           (\<exists>d. r = CHR ''@'' # d \<and> domainDotTld d)" for r
    by (cases r) auto
  have "emailRegex_test s \<longleftrightarrow>
        (\<exists>l r. s = l @ r \<and> plusClass l \<and> (\<exists>d. r = CHR ''@'' # d \<and> domainDotTld d))"
    unfolding emailRegex_test_def list_ex_splits by (simp only: c split_conv)
  thus ?thesis unfolding domainDotTld_iff by blast
qed

lemma lowerChar_dot: "lowerChar c = CHR ''.'' \<longleftrightarrow> c = CHR ''.''"
  by (simp add: char_eq_code [of _ "CHR ''.''"] of_char_lowerChar Let_def)

lemma emailRegex_test_toLowerCase: "emailRegex_test (toLowerCase s) = emailRegex_test s"
proof
  assume "emailRegex_test s"
  then obtain l a b where s: "s = l @ CHR ''@'' # a @ CHR ''.'' # b"
    and p: "plusClass l" "plusClass a" "plusClass b"
    unfolding emailRegex_test_iff by blast
  have "lowerChar CHR ''@'' = CHR ''@''" "lowerChar CHR ''.'' = CHR ''.''"
    by (simp_all add: lowerChar_at lowerChar_dot)
  hence "toLowerCase s = toLowerCase l @ CHR ''@'' # toLowerCase a @ CHR ''.'' # toLowerCase b"
    unfolding s by (simp add: toLowerCase_def)
  thus "emailRegex_test (toLowerCase s)"
    unfolding emailRegex_test_iff using p plusClass_toLowerCase by blast
next
  assume "emailRegex_test (toLowerCase s)"
  then obtain l a b where s: "map lowerChar s = l @ CHR ''@'' # a @ CHR ''.'' # b"
    and p: "plusClass l" "plusClass a" "plusClass b"
    unfolding emailRegex_test_iff toLowerCase_def by blast
  from s [unfolded map_eq_append_conv]
  obtain l' r' where 1: "s = l' @ r'" "l = map lowerChar l'"
    "map lowerChar r' = CHR ''@'' # a @ CHR ''.'' # b"
    by auto
  from map_eq_Cons_D [OF 1(3)]
  obtain c r'' where 2: "r' = c # r''" "lowerChar c = CHR ''@''"
    "map lowerChar r'' = a @ CHR ''.'' # b"
    by auto
  from 2(3) [unfolded map_eq_append_conv]
  obtain a' r3 where 3: "r'' = a' @ r3" "a = map lowerChar a'"
    "map lowerChar r3 = CHR ''.'' # b"
    by auto
  from map_eq_Cons_D [OF 3(3)]
  obtain d b' where 4: "r3 = d # b'" "lowerChar d = CHR ''.''" "b = map lowerChar b'"
    by auto
  have "s = l' @ CHR ''@'' # a' @ CHR ''.'' # b'"
    using 1(1) 2(1,2) 3(1) 4(1,2) by (simp add: lowerChar_at lowerChar_dot)
  moreover have "plusClass l'" "plusClass a'" "plusClass b'"
    using p 1(2) 3(2) 4(3) plusClass_toLowerCase unfolding toLowerCase_def by auto
  ultimately show "emailRegex_test s"
    unfolding emailRegex_test_iff by blast
qed

lemma emailRegex_test_trim: "emailRegex_test s \<Longrightarrow> trim s = s"
proof -
  assume "emailRegex_test s"
  then obtain l a b where s: "s = l @ CHR ''@'' # a @ CHR ''.'' # b"
    and p: "plusClass l" "plusClass b"
    unfolding emailRegex_test_iff by blast
  from p(1) have "l \<noteq> []" "notSpaceAt (hd l)"
    by (cases l; simp add: plusClass_def)+
  hence h: "\<not> isWhiteSpace (hd s)" unfolding s by (simp add: notSpaceAt_def)
  from p(2) have "b \<noteq> []" "notSpaceAt (last b)"
    by (simp_all add: plusClass_def list_all_iff)
  hence "\<not> isWhiteSpace (last s)" unfolding s by (simp add: notSpaceAt_def)
  with h show ?thesis by (simp add: trim_self_iff)
qed

lemma emailRegex_test_nonempty: "emailRegex_test s \<Longrightarrow> s \<noteq> []"
  unfolding emailRegex_test_iff by auto

lemma isValidEmail_normal: "isValidEmail (toLowerCase (trim e)) = isValidEmail e"
  by (simp add: isValidEmail_def trim_toLowerCase trim_idem emailRegex_test_toLowerCase)

lemma storedForm_normal:
  assumes "isValidEmail e"
  shows "storedForm (toLowerCase (trim e))"
proof -
  have "emailRegex_test (toLowerCase (trim e))"
    using assms by (simp add: isValidEmail_def emailRegex_test_toLowerCase)
  thus ?thesis
    by (simp add: storedForm_def trim_toLowerCase trim_idem toLowerCase_idem)
qed

lemma addEmail_fresh:
  assumes "isValidEmail e" and "toLowerCase (trim e) \<notin> set (emails c)"
  shows "addEmail e c = c\<lparr>emails := emails c @ [toLowerCase (trim e)], inputValue := [], chipError := []\<rparr>"
proof -
  have "emailRegex_test (toLowerCase (trim e))"
    using assms(1) by (simp add: isValidEmail_def emailRegex_test_toLowerCase)
  hence "toLowerCase (trim e) \<noteq> []" by (rule emailRegex_test_nonempty)
  thus ?thesis using assms by (simp add: addEmail_def Let_def isValidEmail_normal)
qed

lemma addEmail_present:
  assumes "isValidEmail e" and "toLowerCase (trim e) \<in> set (emails c)"
  shows "addEmail e c = c\<lparr>chipError := ''This email has already been added''\<rparr>"
proof -
  have "emailRegex_test (toLowerCase (trim e))"
    using assms(1) by (simp add: isValidEmail_def emailRegex_test_toLowerCase)
  hence "toLowerCase (trim e) \<noteq> []" by (rule emailRegex_test_nonempty)
  thus ?thesis using assms by (simp add: addEmail_def Let_def isValidEmail_normal)
qed

lemma addEmail_invalid:
  assumes "\<not> isValidEmail e"
  shows "emails (addEmail e c) = emails c"
  using assms by (simp add: addEmail_def Let_def isValidEmail_normal)

lemma case_variation: 
  assumes "toLowerCase s' = toLowerCase s"
  shows "toLowerCase (trim s') = toLowerCase (trim s)" and "isValidEmail s' = isValidEmail s"
proof -
  show k: "toLowerCase (trim s') = toLowerCase (trim s)"
    using assms by (metis trim_toLowerCase)
  have "isValidEmail s' = isValidEmail (toLowerCase (trim s'))" by (simp add: isValidEmail_normal)
  also have "\<dots> = isValidEmail s" unfolding k by (simp add: isValidEmail_normal)
  finally show "isValidEmail s' = isValidEmail s" .
qed

section \<open>EmailChipInput: the participant list\<close>

lemma count_list_distinct: "distinct xs \<Longrightarrow> x \<in> set xs \<Longrightarrow> count_list xs x = 1"
  by (induction xs) auto

text \<open>
  C7, as the code has it: for a string \<open>s\<close> that is a valid email, added to a list without
  repeated entries, and any case variation \<open>s'\<close> of it, adding \<open>s\<close> and then \<open>s'\<close> leaves
  exactly one entry for \<open>s\<close> (its trimmed, lower-case form); the second call only sets the
  duplicate error, and the first call either finds the entry or appends it after the
  entries already there.
\<close>

theorem addEmail_twice_one_entry:
  assumes "isValidEmail s" and "toLowerCase s' = toLowerCase s" and "distinct (emails c)"
  shows "addEmail s' (addEmail s c) = (addEmail s c)\<lparr>chipError := ''This email has already been added''\<rparr>
       \<and> count_list (emails (addEmail s' (addEmail s c))) (toLowerCase (trim s)) = 1
       \<and> emails (addEmail s c) =
           (if toLowerCase (trim s) \<in> set (emails c) then emails c
            else emails c @ [toLowerCase (trim s)])"
proof -
  let ?k = "toLowerCase (trim s)"
  have k': "toLowerCase (trim s') = ?k" and v': "isValidEmail s'"
    using case_variation [OF assms(2)] assms(1) by simp_all
  have e1: "emails (addEmail s c) = (if ?k \<in> set (emails c) then emails c else emails c @ [?k])"
    using addEmail_fresh [OF assms(1), of c] addEmail_present [OF assms(1), of c] by auto
  hence in1: "?k \<in> set (emails (addEmail s c))" by auto
  have 2: "addEmail s' (addEmail s c) = (addEmail s c)\<lparr>chipError := ''This email has already been added''\<rparr>"
    using addEmail_present [OF v', of "addEmail s c"] in1 unfolding k' by simp
  have "distinct (emails (addEmail s c))"
    using e1 assms(3) by auto
  hence "count_list (emails (addEmail s c)) ?k = 1"
    using in1 by (rule count_list_distinct)
  thus ?thesis using 2 e1 by simp
qed

theorem addEmail_twice_one_entry_witness:
  "isValidEmail '' Bob@Example.COM '' \<and> toLowerCase '' BOB@example.com '' = toLowerCase '' Bob@Example.COM ''
   \<and> distinct (emails \<lparr>emails = [''a@x.com''], inputValue = ''BOB'', chipError = []\<rparr>)
   \<and> emails (addEmail '' BOB@example.com ''
        (addEmail '' Bob@Example.COM '' \<lparr>emails = [''a@x.com''], inputValue = ''BOB'', chipError = []\<rparr>))
       = [''a@x.com'', ''bob@example.com'']
   \<and> count_list (emails (addEmail '' BOB@example.com ''
        (addEmail '' Bob@Example.COM '' \<lparr>emails = [''a@x.com''], inputValue = ''BOB'', chipError = []\<rparr>)))
         ''bob@example.com'' = 1"
proof -
  let ?c = "\<lparr>emails = [''a@x.com''], inputValue = ''BOB'', chipError = []\<rparr>"
  have h1: "isValidEmail '' Bob@Example.COM ''" by code_simp
  have h2: "toLowerCase '' BOB@example.com '' = toLowerCase '' Bob@Example.COM ''" by code_simp
  have h3: "distinct (emails ?c)" by simp
  have k: "toLowerCase (trim '' Bob@Example.COM '') = ''bob@example.com''" by code_simp
  show ?thesis
    using addEmail_twice_one_entry [OF h1 h2 h3] h1 h2 unfolding k by simp
qed

theorem addEmail_twice_counterexample:
  "emails (addEmail ''bad'' (addEmail ''bad'' \<lparr>emails = [], inputValue = [], chipError = []\<rparr>)) = []
   \<and> chipError (addEmail ''bad'' (addEmail ''bad'' \<lparr>emails = [], inputValue = [], chipError = []\<rparr>))
       = ''Please enter a valid email address''"
  by code_simp






text \<open>
  C10: when every entry of the list is trimmed, lower-case and matches the email
  pattern, so is every entry after \<open>addEmail\<close> and after \<open>removeEmail\<close>; what \<open>addEmail\<close>
  appends, if anything, is the trimmed and lower-cased input, not the input as typed.
\<close>

theorem storedForm_preserved:
  assumes "list_all storedForm (emails c)"
  shows "list_all storedForm (emails (addEmail x c))
       \<and> list_all storedForm (emails (removeEmail x c))
       \<and> (emails (addEmail x c) = emails c \<or> emails (addEmail x c) = emails c @ [toLowerCase (trim x)])"
proof -
  have r: "list_all storedForm (emails (removeEmail x c))"
    using assms by (simp add: removeEmail_def list_all_iff)
  show ?thesis
  proof (cases "isValidEmail x \<and> toLowerCase (trim x) \<notin> set (emails c)")
    case True
    hence "emails (addEmail x c) = emails c @ [toLowerCase (trim x)]"
      by (simp add: addEmail_fresh)
    moreover have "storedForm (toLowerCase (trim x))"
      using True by (simp add: storedForm_normal)
    ultimately show ?thesis using assms r by simp
  next
    case False
    have "emails (addEmail x c) = emails c"
    proof (cases "isValidEmail x")
      case True
      with False have "toLowerCase (trim x) \<in> set (emails c)" by simp
      thus ?thesis using True by (simp add: addEmail_present)
    next
      case False
      thus ?thesis by (rule addEmail_invalid)
    qed
    thus ?thesis using assms r by simp
  qed
qed

theorem storedForm_preserved_witness:
  "list_all storedForm (emails \<lparr>emails = [''a@x.com''], inputValue = [], chipError = []\<rparr>)
   \<and> emails (addEmail '' Bob@Example.COM '' \<lparr>emails = [''a@x.com''], inputValue = [], chipError = []\<rparr>)
       = [''a@x.com'', ''bob@example.com'']
   \<and> list_all storedForm
        (emails (addEmail '' Bob@Example.COM '' \<lparr>emails = [''a@x.com''], inputValue = [], chipError = []\<rparr>))"
proof -
  let ?c = "\<lparr>emails = [''a@x.com''], inputValue = [], chipError = []\<rparr>"
  have h: "list_all storedForm (emails ?c)" by code_simp
  have e: "emails (addEmail '' Bob@Example.COM '' ?c) = [''a@x.com'', ''bob@example.com'']"
    by code_simp
  note t = storedForm_preserved [OF h, of "'' Bob@Example.COM ''", unfolded e]
  from t have "list_all storedForm [''a@x.com'', ''bob@example.com'']" by (rule conjunct1)
  with h e show ?thesis by (simp only: simp_thms)
qed

section \<open>useMediaRecorder: the recorded blob\<close>

lemma chunksRef_clearIntervalRef [simp]: "chunksRef (clearIntervalRef s) = chunksRef s"
  by (simp add: clearIntervalRef_def clearInterval_def split: option.split)

lemma isRecording_clearIntervalRef [simp]: "isRecording (clearIntervalRef s) = isRecording s"
  by (simp add: clearIntervalRef_def clearInterval_def split: option.split)

lemma mediaRecorderRef_clearIntervalRef [simp]:
  "mediaRecorderRef (clearIntervalRef s) = mediaRecorderRef s"
  by (simp add: clearIntervalRef_def clearInterval_def split: option.split)

lemma underWay_startRecording: "underWay (startRecording Granted s)"
  by (simp add: underWay_def startRecording_def setInterval_def Let_def)

lemma chunksRef_startRecording: "chunksRef (startRecording Granted s) = []"
  by (simp add: startRecording_def setInterval_def Let_def)

lemma chunksRef_ondataavailable:
  "chunksRef (ondataavailable b s) = chunksRef s @ filter (\<lambda>b. blobSize b > 0) [b]"
  by (simp add: ondataavailable_def)

lemma handle_underWay:
  assumes "underWay s"
  shows "\<exists>s'. handle e s = Inr s' \<and> underWay s'
          \<and> chunksRef s' = chunksRef s @ filter (\<lambda>b. blobSize b > 0) (delivered [e])"
proof -
  from assms obtain mr where mr: "mediaRecorderRef s = Some mr" "state mr \<noteq> Inactive" "isRecording s"
    by (auto simp: underWay_def split: option.splits)
  show ?thesis
  proof (cases e)
    case (DataAvailable b)
    thus ?thesis using assms by (simp add: ondataavailable_def underWay_def)
  next
    case (TimerFires i)
    thus ?thesis using assms by (simp add: tick_def underWay_def)
  next
    case PauseClicked
    thus ?thesis using mr by (simp add: pauseRecording_def mrPause_def underWay_def)
  next
    case ResumeClicked
    thus ?thesis using mr
      by (simp add: resumeRecording_def mrResume_def underWay_def setInterval_def Let_def)
  qed
qed

lemma delivered_append_one: "delivered (e # es) = delivered [e] @ delivered es"
  by (cases e) simp_all

lemma run_underWay:
  assumes "underWay s"
  shows "\<exists>s'. run es s = Inr s' \<and> underWay s'
          \<and> chunksRef s' = chunksRef s @ filter (\<lambda>b. blobSize b > 0) (delivered es)"
  using assms
proof (induction es arbitrary: s)
  case Nil
  thus ?case by simp
next
  case (Cons e es)
  from handle_underWay [OF Cons.prems, of e] obtain s1 where
    1: "handle e s = Inr s1" "underWay s1"
       "chunksRef s1 = chunksRef s @ filter (\<lambda>b. blobSize b > 0) (delivered [e])"
    by blast
  from Cons.IH [OF 1(2)] obtain s2 where
    2: "run es s1 = Inr s2" "underWay s2"
       "chunksRef s2 = chunksRef s1 @ filter (\<lambda>b. blobSize b > 0) (delivered es)"
    by blast
  have "run (e # es) s = Inr s2" using 1(1) 2(1) by simp
  moreover have "chunksRef s2 = chunksRef s @ filter (\<lambda>b. blobSize b > 0) (delivered (e # es))"
    unfolding 2(3) 1(3) delivered_append_one [of e es] by simp
  ultimately show ?case using 2(2) by blast
qed

lemma chunksRef_fold_ondataavailable:
  "chunksRef (fold ondataavailable bs s) = chunksRef s @ filter (\<lambda>b. blobSize b > 0) bs"
  by (induction bs arbitrary: s) (simp_all add: ondataavailable_def)

lemma concat_nonempty_chunks:
  "concat (map bytes (filter (\<lambda>b. blobSize b > 0) bs)) = concat (map bytes bs)"
  by (induction bs) (simp_all add: blobSize_def)

lemma length_concat_bytes: "length (concat (map bytes bs)) = sum_list (map blobSize bs)"
  by (induction bs) (simp_all add: blobSize_def)

lemma stopRecording_underWay:
  assumes "underWay s"
  shows "fst (stopRecording s) = Pending" and "chunksRef (snd (stopRecording s)) = chunksRef s"
  using assms by (auto simp: underWay_def stopRecording_def split: option.splits)

lemma refs_fold_ondataavailable:
  "mediaRecorderRef (fold ondataavailable bs s) = mediaRecorderRef s"
  "isRecording (fold ondataavailable bs s) = isRecording s"
  by (induction bs arbitrary: s) (simp_all add: ondataavailable_def)

lemma stopRecording_underWay_result:
  assumes "isRecording s" and "mediaRecorderRef s = Some mr" and "state mr \<noteq> Inactive"
  shows "stopRecording s =
           (Pending,
            clearIntervalRef
              (s\<lparr>mediaRecorderRef := Some (mr\<lparr>onstopSet := True, state := Inactive, stopPending := True\<rparr>),
                 isRecording := False\<rparr>))"
  using assms by (simp add: stopRecording_def mrStop_def)

text \<open>
  C1: after \<open>startRecording\<close> has been granted the microphone, whatever chunks are
  delivered, timers fire and pause or resume requests come in before \<open>stopRecording\<close>,
  the events are all handled without error; \<open>stopRecording\<close> then returns a promise
  that is pending at first, installs the \<open>stop\<close> handler and stops the recorder; and
  when the platform, after whatever chunks it still delivers, fires \<open>stop\<close>, the promise
  is fulfilled with a blob that holds the bytes of all delivered chunks in arrival
  order, has their sizes' sum as its size, and is of type \<open>audio/webm\<close>. The session is
  then not recording, its recorder inactive and its tracks stopped.
\<close>

theorem stopRecording_blob_concat:
  "\<exists>s1 s2 mr. run es (startRecording Granted s) = Inr s1
      \<and> fst (stopRecording s1) = Pending
      \<and> awaitStopRecording late s1
          = (Fulfilled (Some \<lparr>bytes = concat (map bytes (delivered es @ late)), blobType = ''audio/webm''\<rparr>), s2)
      \<and> blobSize \<lparr>bytes = concat (map bytes (delivered es @ late)), blobType = ''audio/webm''\<rparr>
          = sum_list (map blobSize (delivered es @ late))
      \<and> \<not> isRecording s2
      \<and> mediaRecorderRef s2 = Some mr \<and> state mr = Inactive \<and> \<not> tracksLive mr"
proof -
  from run_underWay [OF underWay_startRecording, of es s] obtain s1 where
    1: "run es (startRecording Granted s) = Inr s1" "underWay s1"
       "chunksRef s1 = filter (\<lambda>b. blobSize b > 0) (delivered es)"
    by (auto simp: chunksRef_startRecording)
  from 1(2) obtain mr where mr: "isRecording s1" "mediaRecorderRef s1 = Some mr" "state mr \<noteq> Inactive"
    by (auto simp: underWay_def split: option.splits)
  let ?mr1 = "mr\<lparr>onstopSet := True, state := Inactive, stopPending := True\<rparr>"
  let ?s2 = "clearIntervalRef (s1\<lparr>mediaRecorderRef := Some ?mr1, isRecording := False\<rparr>)"
  let ?s3 = "fold ondataavailable late ?s2"
  let ?b = "\<lparr>bytes = concat (map bytes (delivered es @ late)), blobType = ''audio/webm''\<rparr>"
  have stop: "stopRecording s1 = (Pending, ?s2)"
    using mr by (rule stopRecording_underWay_result)
  have ref3: "mediaRecorderRef ?s3 = Some ?mr1" and rec3: "\<not> isRecording ?s3"
    by (simp_all add: refs_fold_ondataavailable)
  have "chunksRef ?s3 = filter (\<lambda>b. blobSize b > 0) (delivered es @ late)"
    by (simp add: chunksRef_fold_ondataavailable 1(3))
  hence blob: "Blob (chunksRef ?s3) ''audio/webm'' = ?b"
    by (simp add: Blob_def concat_nonempty_chunks)
  let ?s4 = "?s3\<lparr>mediaRecorderRef := Some (?mr1\<lparr>stopPending := False, tracksLive := False\<rparr>)\<rparr>"
  have fire: "fireStop ?s3 = (Fulfilled (Some ?b), ?s4)"
    using blob by (simp add: fireStop_def ref3 onstop_def Let_def)
  have await: "awaitStopRecording late s1 = (Fulfilled (Some ?b), ?s4)"
    by (simp add: awaitStopRecording_def stop fire)
  have size: "blobSize ?b = sum_list (map blobSize (delivered es @ late))"
    by (simp add: blobSize_def length_concat_bytes [symmetric] del: map_append)
  have fin: "\<not> isRecording ?s4"
    "mediaRecorderRef ?s4 = Some (?mr1\<lparr>stopPending := False, tracksLive := False\<rparr>)"
    "state (?mr1\<lparr>stopPending := False, tracksLive := False\<rparr>) = Inactive"
    "\<not> tracksLive (?mr1\<lparr>stopPending := False, tracksLive := False\<rparr>)"
    using rec3 by simp_all
  have "fst (stopRecording s1) = Pending" by (simp add: stop)
  with 1(1) await size fin show ?thesis by blast
qed

lemma three_chunks_scenario:
  "fst (awaitStopRecording []
      (fold ondataavailable
         [\<lparr>bytes = replicate 1000 0, blobType = ''audio/webm''\<rparr>,
          \<lparr>bytes = replicate 2000 1, blobType = ''audio/webm''\<rparr>,
          \<lparr>bytes = replicate 1500 2, blobType = ''audio/webm''\<rparr>]
         (startRecording Granted initialSession)))
     = Fulfilled (Some \<lparr>bytes = replicate 1000 0 @ replicate 2000 1 @ replicate 1500 2,
                          blobType = ''audio/webm''\<rparr>)
   \<and> blobSize \<lparr>bytes = replicate 1000 0 @ replicate 2000 1 @ replicate 1500 2,
                 blobType = ''audio/webm''\<rparr> = 4500"
  by (simp add: awaitStopRecording_def fireStop_def onstop_def stopRecording_def mrStop_def
      clearIntervalRef_def clearInterval_def startRecording_def setInterval_def Let_def
      ondataavailable_def blobSize_def Blob_def initialSession_def)

text \<open>
  C9: when no recorder exists or \<open>isRecording\<close> is false, \<open>stopRecording\<close> returns a
  promise fulfilled with null and the session (state, refs and timers) is as before.
\<close>

theorem stopRecording_idle:
  "mediaRecorderRef s = None \<or> \<not> isRecording s \<Longrightarrow> stopRecording s = (Fulfilled None, s)"
  by (auto simp: stopRecording_def split: option.splits)

theorem stopRecording_idle_witness:
  "(mediaRecorderRef initialSession = None \<or> \<not> isRecording initialSession)
   \<and> stopRecording initialSession = (Fulfilled None, initialSession)"
proof -
  have h: "mediaRecorderRef initialSession = None \<or> \<not> isRecording initialSession"
    by (simp add: initialSession_def)
  show ?thesis using h stopRecording_idle [OF h] by simp
qed

section \<open>useMediaRecorder: pause and resume\<close>

lemma pauseRecording_idle:
  "mediaRecorderRef s = None \<or> \<not> isRecording s \<Longrightarrow> pauseRecording s = Inr s"
  by (auto simp: pauseRecording_def split: option.splits)

lemma resumeRecording_idle:
  "mediaRecorderRef s = None \<or> \<not> isRecording s \<Longrightarrow> resumeRecording s = Inr s"
  by (auto simp: resumeRecording_def split: option.splits)

lemma pauseRecording_paused:
  assumes "mediaRecorderRef s = Some mr" and "state mr = Paused" and "intervalRef s = None"
  shows "pauseRecording s = Inr s"
proof -
  have "mr\<lparr>state := Paused\<rparr> = mr" using assms(2) by simp
  thus ?thesis
    using assms by (simp add: pauseRecording_def mrPause_def clearIntervalRef_def)
qed

lemma pauseRecording_recording:
  assumes "isRecording s" and "mediaRecorderRef s = Some mr" and "state mr = Recording"
    and "intervalRef s = Some i"
  shows "pauseRecording s =
           Inr (s\<lparr>mediaRecorderRef := Some (mr\<lparr>state := Paused\<rparr>),
                  timers := removeAll i (timers s), intervalRef := None\<rparr>)"
  using assms by (simp add: pauseRecording_def mrPause_def clearIntervalRef_def clearInterval_def)

lemma resumeRecording_paused:
  assumes "isRecording s" and "mediaRecorderRef s = Some mr" and "state mr = Paused"
  shows "resumeRecording s =
           Inr (s\<lparr>mediaRecorderRef := Some (mr\<lparr>state := Recording\<rparr>),
                  timers := timers s @ [Suc (timerSeq s)], timerSeq := Suc (timerSeq s),
                  intervalRef := Some (Suc (timerSeq s))\<rparr>)"
  using assms by (simp add: resumeRecording_def mrResume_def setInterval_def Let_def)

lemma recordingTime_fold_tick:
  "set is \<subseteq> set (timers s) \<Longrightarrow> recordingTime (fold tick is s) = recordingTime s + length is"
proof (induction "is" arbitrary: s)
  case Nil
  show ?case by simp
next
  case (Cons i "is")
  have "timers (tick i s) = timers s" by (simp add: tick_def)
  with Cons.prems have "set is \<subseteq> set (timers (tick i s))" by simp
  from Cons.IH [OF this] Cons.prems show ?case by (simp add: tick_def)
qed

lemma recordingTime_secondElapses:
  "recordingTime (secondElapses s) = recordingTime s + length (timers s)"
  by (simp add: secondElapses_def recordingTime_fold_tick)

lemma pause_then_resume:
  assumes "isRecording s" and "mediaRecorderRef s = Some mr" and "state mr = Recording"
    and "intervalRef s = Some i" and "timers s = [i]"
  shows "\<exists>s1 s2. pauseRecording s = Inr s1 \<and> resumeRecording s1 = Inr s2
          \<and> timers s1 = [] \<and> tracksLive mr = tracksLive (the (mediaRecorderRef s1))
          \<and> recordingTime (secondElapses s1) = recordingTime s
          \<and> mediaRecorderRef s2 = mediaRecorderRef s \<and> isRecording s2 \<and> chunksRef s2 = chunksRef s
          \<and> length (timers s2) = 1
          \<and> recordingTime (secondElapses s2) = recordingTime (secondElapses s)"
proof -
  let ?s1 = "s\<lparr>mediaRecorderRef := Some (mr\<lparr>state := Paused\<rparr>),
                timers := removeAll i (timers s), intervalRef := None\<rparr>"
  have 1: "pauseRecording s = Inr ?s1"
    using assms(1-4) by (rule pauseRecording_recording)
  let ?s2 = "?s1\<lparr>mediaRecorderRef := Some ((mr\<lparr>state := Paused\<rparr>)\<lparr>state := Recording\<rparr>),
                 timers := timers ?s1 @ [Suc (timerSeq ?s1)], timerSeq := Suc (timerSeq ?s1),
                 intervalRef := Some (Suc (timerSeq ?s1))\<rparr>"
  have 2: "resumeRecording ?s1 = Inr ?s2"
    using assms(1) by (intro resumeRecording_paused) simp_all
  have mr: "mr\<lparr>state := Recording\<rparr> = mr" using assms(3) by simp
  have "timers ?s1 = []" using assms(5) by simp
  moreover have "tracksLive mr = tracksLive (the (mediaRecorderRef ?s1))" by simp
  moreover have "recordingTime (secondElapses ?s1) = recordingTime s"
    using assms(5) by (simp add: recordingTime_secondElapses)
  moreover have "mediaRecorderRef ?s2 = mediaRecorderRef s" using assms(2) mr by simp
  moreover have "isRecording ?s2" using assms(1) by simp
  moreover have "chunksRef ?s2 = chunksRef s" by simp
  moreover have "length (timers ?s2) = 1" using assms(5) by simp
  moreover have "recordingTime (secondElapses ?s2) = recordingTime (secondElapses s)"
    using assms(5) by (simp add: recordingTime_secondElapses)
  ultimately show ?thesis using 1 2 by blast
qed

lemma resumeRecording_recording_adds_interval:
  assumes "isRecording s" and "mediaRecorderRef s = Some mr" and "state mr = Recording"
  shows "resumeRecording s =
           Inr (s\<lparr>timers := timers s @ [Suc (timerSeq s)], timerSeq := Suc (timerSeq s),
                  intervalRef := Some (Suc (timerSeq s))\<rparr>)"
proof -
  have "mr\<lparr>state := Recording\<rparr> = mr" using assms(3) by simp
  thus ?thesis
    using assms by (simp add: resumeRecording_def mrResume_def setInterval_def Let_def)
qed

lemma resumeRecording_recording_faster_clock:
  assumes "isRecording s" and "mediaRecorderRef s = Some mr" and "state mr = Recording"
  shows "\<exists>s'. resumeRecording s = Inr s'
          \<and> recordingTime (secondElapses s') = recordingTime (secondElapses s) + 1"
  unfolding resumeRecording_recording_adds_interval [OF assms]
  by (simp add: recordingTime_secondElapses)

text \<open>
  C6, where the code departs from it: \<open>resumeRecording\<close> called while recording (not
  paused) is not a no-op. It starts a second interval and overwrites \<open>intervalRef\<close>,
  so that each second adds 2 to \<open>recordingTime\<close> instead of 1, and the first interval
  outlives \<open>stopRecording\<close>, which clears only the interval \<open>intervalRef\<close> names.
\<close>

theorem resumeRecording_while_recording:
  "resumeRecording (startRecording Granted initialSession)
     = Inr ((startRecording Granted initialSession)\<lparr>intervalRef := Some 2, timers := [1, 2], timerSeq := 2\<rparr>)
   \<and> recordingTime (secondElapses (startRecording Granted initialSession)) = 1
   \<and> recordingTime (secondElapses
        ((startRecording Granted initialSession)\<lparr>intervalRef := Some 2, timers := [1, 2], timerSeq := 2\<rparr>)) = 2
   \<and> timers (snd (stopRecording
        ((startRecording Granted initialSession)\<lparr>intervalRef := Some 2, timers := [1, 2], timerSeq := 2\<rparr>))) = [1]"
  by (simp add: resumeRecording_def mrResume_def startRecording_def setInterval_def Let_def
      initialSession_def secondElapses_def tick_def stopRecording_def mrStop_def
      clearIntervalRef_def clearInterval_def)

section \<open>RecordingSubmissionModal and processMeeting\<close>

lemma handleSubmitBegin_invalid:
  assumes "recordingBlobProp m = None \<or> modalEmails m = [] \<or> meetingTitle m = []"
  shows "handleSubmitBegin env m =
           (False, m, [Toast ''Missing Information'' ''Please fill in all required fields.'' True])"
  using assms by (auto simp: handleSubmitBegin_def split: option.splits)

lemma handleSubmitBegin_valid:
  assumes "recordingBlobProp m = Some b" and "modalEmails m \<noteq> []" and "meetingTitle m \<noteq> []"
  shows "handleSubmitBegin env m =
           (True, m\<lparr>isSubmitting := True\<rparr>,
            [Fetch (processMeetingRequest env
               \<lparr>title = meetingTitle m, date = toISOString (meetingDate m),
                participants = modalEmails m, recordingBlob = b\<rparr>)])"
  using assms by (simp add: handleSubmitBegin_def)

lemma processMeetingResult_failed:
  "processMeetingResult (FetchRejected msg) = Inl msg"
  "\<not> ok r \<Longrightarrow> processMeetingResult (FetchResolved r) = Inl (handleApiError r)"
  by (simp_all add: processMeetingResult_def)

text \<open>
  C2, as the code has it: for every meeting \<open>processMeeting\<close> is given, it sends one POST
  request whose form has exactly four fields, in this order: \<open>recording\<close> (the blob),
  \<open>title\<close>, \<open>date\<close> (the string it was given, which \<open>handleSubmit\<close> takes from
  \<open>toISOString\<close>) and \<open>participants\<close> (the JSON text of the array of strings). There is
  no \<open>duration\<close> field.
\<close>

theorem processMeeting_form_fields:
  "httpMethod (processMeetingRequest env d) = ''POST''
   \<and> url (processMeetingRequest env d) = BASE_URL env @ ''/meetings/process''
   \<and> map fst (body (processMeetingRequest env d)) = [''recording'', ''title'', ''date'', ''participants'']
   \<and> map snd (body (processMeetingRequest env d))
       = [FileValue (recordingBlob d), TextValue (title d), TextValue (date d),
          TextValue (JSON_stringify (participants d))]"
  by (simp add: processMeetingRequest_def processMeetingForm_def PROCESS_MEETING_def)

theorem processMeeting_duration_counterexample:
  "''duration'' \<notin> set (map fst (body (processMeetingRequest sampleEnv
      \<lparr>title = ''Standup'', date = ''2024-01-15T10:00:00.000Z'', participants = [''a@x.com''],
       recordingBlob = \<lparr>bytes = [1, 2, 3], blobType = ''audio/webm''\<rparr>\<rparr>)))"
  by (simp add: processMeetingRequest_def processMeetingForm_def)

text \<open>
  C3: when the recording blob is null, or the participant list is empty, or the title is
  empty, \<open>handleSubmit\<close> shows the Missing Information toast, sends no request and leaves the
  modal's state as it was.
\<close>

theorem handleSubmit_missing_information:
  assumes "recordingBlobProp m = None \<or> modalEmails m = [] \<or> meetingTitle m = []"
  shows "handleSubmit env now outcome m =
           (m, [Toast ''Missing Information'' ''Please fill in all required fields.'' True])
       \<and> networkCalls (snd (handleSubmit env now outcome m)) = 0"
  by (simp add: handleSubmit_def handleSubmitBegin_invalid [OF assms] networkCalls_def)

theorem handleSubmit_missing_information_witness:
  "(recordingBlobProp (sampleDraft\<lparr>modalEmails := []\<rparr>) = None
      \<or> modalEmails (sampleDraft\<lparr>modalEmails := []\<rparr>) = []
      \<or> meetingTitle (sampleDraft\<lparr>modalEmails := []\<rparr>) = [])
   \<and> handleSubmit sampleEnv sampleNow (FetchRejected ''Failed to fetch'') (sampleDraft\<lparr>modalEmails := []\<rparr>)
       = (sampleDraft\<lparr>modalEmails := []\<rparr>,
          [Toast ''Missing Information'' ''Please fill in all required fields.'' True])
   \<and> networkCalls (snd (handleSubmit sampleEnv sampleNow (FetchRejected ''Failed to fetch'')
         (sampleDraft\<lparr>modalEmails := []\<rparr>))) = 0"
proof -
  have h: "recordingBlobProp (sampleDraft\<lparr>modalEmails := []\<rparr>) = None
      \<or> modalEmails (sampleDraft\<lparr>modalEmails := []\<rparr>) = []
      \<or> meetingTitle (sampleDraft\<lparr>modalEmails := []\<rparr>) = []"
    by simp
  note t = handleSubmit_missing_information [OF h,
      where env = sampleEnv and now = sampleNow and outcome = "FetchRejected ''Failed to fetch''"]
  from t h show ?thesis by blast
qed

text \<open>
  C4, as the code has it: for a draft with a blob, a participant and a title, when the
  \<open>fetch\<close> is rejected (a network failure) or resolves with a status outside 200..299,
  \<open>handleSubmit\<close> ends with \<open>isSubmitting\<close> false and every other part of the state,
  title, participants and date among them, as it was; it has sent exactly one request,
  and it shows one Submission Failed toast whose text is the error's message: the
  network error's own message, or what \<open>handleApiError\<close> takes from the response.
  The toast carries nothing else that tells the two kinds of failure apart.
\<close>

theorem handleSubmit_transport_failure:
  assumes "recordingBlobProp m = Some b" and "modalEmails m \<noteq> []" and "meetingTitle m \<noteq> []"
    and "outcome = FetchRejected msg \<or> (outcome = FetchResolved r \<and> \<not> ok r \<and> msg = handleApiError r)"
  shows "handleSubmit env now outcome m =
           (m\<lparr>isSubmitting := False\<rparr>,
            [Fetch (processMeetingRequest env
               \<lparr>title = meetingTitle m, date = toISOString (meetingDate m),
                participants = modalEmails m, recordingBlob = b\<rparr>),
             Toast ''Submission Failed'' msg True])
       \<and> networkCalls (snd (handleSubmit env now outcome m)) = 1"
proof -
  have "processMeetingResult outcome = Inl msg"
    using assms(4) by (auto simp: processMeetingResult_failed)
  thus ?thesis
    by (simp add: handleSubmit_def handleSubmitBegin_valid [OF assms(1-3)] handleSubmitSettle_def
        networkCalls_def)
qed


theorem handleSubmit_transport_failure_witness:
  "recordingBlobProp sampleDraft = Some \<lparr>bytes = [1, 2, 3], blobType = ''audio/webm''\<rparr>
   \<and> modalEmails sampleDraft \<noteq> [] \<and> meetingTitle sampleDraft \<noteq> []
   \<and> \<not> ok \<lparr>status = 500, responseBody = Parsed None (Some ''Quota exceeded'')\<rparr>
   \<and> ''Quota exceeded'' = handleApiError \<lparr>status = 500, responseBody = Parsed None (Some ''Quota exceeded'')\<rparr>
   \<and> handleSubmit sampleEnv sampleNow
        (FetchResolved \<lparr>status = 500, responseBody = Parsed None (Some ''Quota exceeded'')\<rparr>) sampleDraft
       = (sampleDraft,
          [Fetch (processMeetingRequest sampleEnv
             \<lparr>title = ''Standup'', date = ''2024-01-15T10:00:00.000Z'', participants = [''a@x.com''],
              recordingBlob = \<lparr>bytes = [1, 2, 3], blobType = ''audio/webm''\<rparr>\<rparr>),
           Toast ''Submission Failed'' ''Quota exceeded'' True])"
proof -
  let ?r = "\<lparr>status = 500, responseBody = Parsed None (Some ''Quota exceeded'')\<rparr>"
  have h1: "recordingBlobProp sampleDraft = Some \<lparr>bytes = [1, 2, 3], blobType = ''audio/webm''\<rparr>"
    and h2: "modalEmails sampleDraft \<noteq> []" and h3: "meetingTitle sampleDraft \<noteq> []"
    by (simp_all add: sampleDraft_def)
  have nok: "\<not> ok ?r" by (simp add: ok_def)
  have msg: "''Quota exceeded'' = handleApiError ?r" by (simp add: handleApiError_def truthy_def)
  have h4: "FetchResolved ?r = FetchRejected ''Quota exceeded''
      \<or> (FetchResolved ?r = FetchResolved ?r \<and> \<not> ok ?r \<and> ''Quota exceeded'' = handleApiError ?r)"
    using nok msg by simp
  note t = handleSubmit_transport_failure [OF h1 h2 h3 h4, where env = sampleEnv and now = sampleNow]
  have d: "sampleDraft\<lparr>isSubmitting := False\<rparr> = sampleDraft" by (simp add: sampleDraft_def)
  have f: "meetingTitle sampleDraft = ''Standup''" "modalEmails sampleDraft = [''a@x.com'']"
    "toISOString (meetingDate sampleDraft) = ''2024-01-15T10:00:00.000Z''"
    by (simp_all add: sampleDraft_def toISOString_def)
  from t [unfolded d f] h1 h2 h3 nok msg show ?thesis by blast
qed

theorem handleSubmit_failure_kind_counterexample:
  "handleSubmit sampleEnv sampleNow (FetchRejected ''Failed to fetch'') sampleDraft
     = handleSubmit sampleEnv sampleNow
         (FetchResolved \<lparr>status = 500, responseBody = Parsed (Some ''Failed to fetch'') None\<rparr>) sampleDraft
   \<and> last (snd (handleSubmit sampleEnv sampleNow (FetchRejected ''Failed to fetch'') sampleDraft))
     = Toast ''Submission Failed'' ''Failed to fetch'' True"
  by (simp add: handleSubmit_def handleSubmitBegin_def handleSubmitSettle_def sampleDraft_def
      processMeetingResult_def ok_def handleApiError_def truthy_def)

lemma oneInFlight_initialUI: "oneInFlight (initialUI b d now)"
  by (simp add: oneInFlight_def initialUI_def)

lemma isSubmitting_handleSubmitSettle:
  "\<not> isSubmitting (fst (handleSubmitSettle now outcome m0 m))"
  by (simp add: handleSubmitSettle_def split: sum.split)

lemma handleSubmitBegin_cases:
  "handleSubmitBegin env m = (False, m, [Toast ''Missing Information'' ''Please fill in all required fields.'' True])
   \<or> (\<exists>req. handleSubmitBegin env m = (True, m\<lparr>isSubmitting := True\<rparr>, [Fetch req]))"
  by (auto simp: handleSubmitBegin_def Let_def split: option.split)

lemma stepUI_SubmitClicked_busy:
  assumes "isSubmitting (modalState u)"
  shows "stepUI env SubmitClicked u = u"
  using assms by (simp add: clickSubmit_def canSubmit_def)

lemma oneInFlight_stepUI:
  assumes "oneInFlight u"
  shows "oneInFlight (stepUI env e u)"
proof (cases e)
  case SubmitClicked
  show ?thesis
  proof (cases "canSubmit (modalState u)")
    case True
    hence idle: "inFlight u = []" using assms by (simp add: canSubmit_def oneInFlight_def)
    from handleSubmitBegin_cases [of env "modalState u"] show ?thesis
    proof
      assume "handleSubmitBegin env (modalState u) =
        (False, modalState u, [Toast ''Missing Information'' ''Please fill in all required fields.'' True])"
      thus ?thesis using assms True SubmitClicked by (simp add: clickSubmit_def oneInFlight_def)
    next
      assume "\<exists>req. handleSubmitBegin env (modalState u) =
        (True, (modalState u)\<lparr>isSubmitting := True\<rparr>, [Fetch req])"
      thus ?thesis using idle True SubmitClicked by (auto simp: clickSubmit_def oneInFlight_def)
    qed
  next
    case False
    thus ?thesis using assms SubmitClicked by (simp add: clickSubmit_def oneInFlight_def)
  qed
next
  case (RequestSettles i outcome now)
  show ?thesis
  proof (cases "i < length (inFlight u)")
    case True
    hence i0: "i = 0" and l1: "length (inFlight u) = 1"
      using assms by (simp_all add: oneInFlight_def)
    obtain m fx where
      hs: "handleSubmitSettle now outcome (inFlight u ! i) (modalState u) = (m, fx)"
      by (cases "handleSubmitSettle now outcome (inFlight u ! i) (modalState u)")
    have nm: "\<not> isSubmitting m"
      using isSubmitting_handleSubmitSettle [of now outcome "inFlight u ! i" "modalState u"]
      by (simp add: hs)
    have "drop (Suc 0) (inFlight u) = []" using l1 by simp
    hence "stepUI env e u = u\<lparr>modalState := m, inFlight := [], shown := shown u @ fx\<rparr>"
      using True RequestSettles hs i0 by simp
    thus ?thesis using nm by (simp add: oneInFlight_def)
  next
    case False
    thus ?thesis using assms RequestSettles by simp
  qed
qed (use assms in \<open>simp_all add: oneInFlight_def\<close>)

lemma oneInFlight_runUI: "oneInFlight u \<Longrightarrow> oneInFlight (runUI env es u)"
  by (induction es arbitrary: u) (simp_all add: oneInFlight_stepUI)

text \<open>
  C5: in every state the modal can reach, at most one request is in flight, and
  \<open>isSubmitting\<close> holds exactly while one is. While one is in flight, a click on the
  submit button is rejected outright: the modal's state, the request in flight and
  everything done so far stay as they are, so no request is sent, none is queued and
  none is cancelled.
\<close>

theorem at_most_one_submission_in_flight:
  "length (inFlight (runUI env es (initialUI b d now))) \<le> 1
   \<and> (isSubmitting (modalState (runUI env es (initialUI b d now)))
        = (inFlight (runUI env es (initialUI b d now)) \<noteq> []))
   \<and> (inFlight (runUI env es (initialUI b d now)) \<noteq> [] \<longrightarrow>
        stepUI env SubmitClicked (runUI env es (initialUI b d now)) = runUI env es (initialUI b d now))"
proof -
  let ?u = "runUI env es (initialUI b d now)"
  have inv: "oneInFlight ?u"
    by (rule oneInFlight_runUI [OF oneInFlight_initialUI])
  have "stepUI env SubmitClicked ?u = ?u" if "inFlight ?u \<noteq> []"
  proof -
    from inv that have "isSubmitting (modalState ?u)" by (simp add: oneInFlight_def)
    thus ?thesis by (rule stepUI_SubmitClicked_busy)
  qed
  moreover have "length (inFlight ?u) \<le> 1"
    and "isSubmitting (modalState ?u) = (inFlight ?u \<noteq> [])"
    using inv by (simp_all add: oneInFlight_def)
  ultimately show ?thesis by blast
qed

theorem at_most_one_submission_in_flight_witness:
  "inFlight (runUI sampleEnv [EmailsChanged [''a@x.com''], TitleChanged ''Standup'', SubmitClicked]
       (initialUI (Some \<lparr>bytes = [1, 2, 3], blobType = ''audio/webm''\<rparr>) 7 sampleNow)) \<noteq> []
   \<and> networkCalls (shown (runUI sampleEnv [EmailsChanged [''a@x.com''], TitleChanged ''Standup'', SubmitClicked]
       (initialUI (Some \<lparr>bytes = [1, 2, 3], blobType = ''audio/webm''\<rparr>) 7 sampleNow))) = 1
   \<and> stepUI sampleEnv SubmitClicked
        (runUI sampleEnv [EmailsChanged [''a@x.com''], TitleChanged ''Standup'', SubmitClicked]
          (initialUI (Some \<lparr>bytes = [1, 2, 3], blobType = ''audio/webm''\<rparr>) 7 sampleNow))
       = runUI sampleEnv [EmailsChanged [''a@x.com''], TitleChanged ''Standup'', SubmitClicked]
          (initialUI (Some \<lparr>bytes = [1, 2, 3], blobType = ''audio/webm''\<rparr>) 7 sampleNow)"
proof -
  let ?u = "runUI sampleEnv [EmailsChanged [''a@x.com''], TitleChanged ''Standup'', SubmitClicked]
       (initialUI (Some \<lparr>bytes = [1, 2, 3], blobType = ''audio/webm''\<rparr>) 7 sampleNow)"
  have t: "trim ''Standup'' = ''Standup''" by code_simp
  have h: "inFlight ?u \<noteq> []"
    by (simp add: initialUI_def clickSubmit_def canSubmit_def handleSubmitBegin_def t)
  have n: "networkCalls (shown ?u) = 1"
    by (simp add: initialUI_def clickSubmit_def canSubmit_def handleSubmitBegin_def t networkCalls_def)
  from at_most_one_submission_in_flight [of sampleEnv
      "[EmailsChanged [''a@x.com''], TitleChanged ''Standup'', SubmitClicked]"
      "Some \<lparr>bytes = [1, 2, 3], blobType = ''audio/webm''\<rparr>" 7 sampleNow] h
  have "stepUI sampleEnv SubmitClicked ?u = ?u" by blast
  with h n show ?thesis by (intro conjI)
qed

section \<open>Further properties\<close>

lemma addEmail_invalid_result:
  assumes "\<not> isValidEmail e"
  shows "addEmail e c =
           (if toLowerCase (trim e) = [] then c
            else c\<lparr>chipError := ''Please enter a valid email address''\<rparr>)"
  using assms by (simp add: addEmail_def Let_def isValidEmail_normal)

lemma distinct_addEmail: "distinct (emails c) \<Longrightarrow> distinct (emails (addEmail x c))"
proof (cases "isValidEmail x")
  case True
  assume "distinct (emails c)"
  thus ?thesis
    using addEmail_fresh [OF True, of c] addEmail_present [OF True, of c]
    by (cases "toLowerCase (trim x) \<in> set (emails c)") simp_all
next
  case False
  assume "distinct (emails c)"
  thus ?thesis by (simp add: addEmail_invalid [OF False])
qed

lemma distinct_removeEmail: "distinct (emails c) \<Longrightarrow> distinct (emails (removeEmail x c))"
  by (simp add: removeEmail_def)

lemma JSON_stringify_example:
  "JSON_stringify [''a@x.com'', ''b@y.org'']
     = ''['' @ [CHR 0x22] @ ''a@x.com'' @ [CHR 0x22] @ '','' @ [CHR 0x22] @ ''b@y.org'' @ [CHR 0x22] @ '']''"
  by code_simp

lemma startRecording_refused:
  "startRecording AccessRefused s =
     s\<lparr>recError := Some ''Failed to start recording. Please check microphone permissions.''\<rparr>"
  by (simp add: startRecording_def)

lemma handleSubmit_success:
  assumes "recordingBlobProp m = Some b" and "modalEmails m \<noteq> []" and "meetingTitle m \<noteq> []"
    and "outcome = FetchResolved r" and "ok r" and "responseBody r = Parsed x y"
  shows "fst (handleSubmit env now outcome m) =
           m\<lparr>modalEmails := [], meetingTitle := [], meetingDate := now, isSubmitting := False\<rparr>
       \<and> networkCalls (snd (handleSubmit env now outcome m)) = 1
       \<and> OnClose \<in> set (snd (handleSubmit env now outcome m))
       \<and> Navigate ''/'' \<in> set (snd (handleSubmit env now outcome m))"
proof -
  have "processMeetingResult outcome = Inr (Parsed x y)"
    using assms(4-6) by (simp add: processMeetingResult_def)
  thus ?thesis
    by (simp add: handleSubmit_def handleSubmitBegin_valid [OF assms(1-3)] handleSubmitSettle_def
        networkCalls_def)
qed

lemma hexVal_hexDigit: "k < 16 \<Longrightarrow> hexVal (hexDigit k) = Some k"
  by (simp add: hexVal_def hexDigit_def Let_def)

lemma unquote_jsonEscape: "unquote (jsonEscape c @ t) = consFst c (unquote t)"
proof -
  let ?n = "of_char c :: nat"
  consider (q) "c = CHR 0x22" | (bs) "c = CHR 0x5C" | (b) "c = CHR 0x08" | (f) "c = CHR 0x0C"
    | (n) "c = CHR 0x0A" | (r) "c = CHR 0x0D" | (t) "c = CHR 0x09"
    | (u) "?n < 32" "?n \<noteq> 8" "?n \<noteq> 9" "?n \<noteq> 10" "?n \<noteq> 12" "?n \<noteq> 13"
    | (plain) "32 \<le> ?n" "?n \<noteq> 34" "?n \<noteq> 92"
    by (cases "?n < 32") (auto simp: char_eq_code [of c])
  thus ?thesis
  proof cases
    case q
    thus ?thesis by (simp add: jsonEscape_def unescape_def)
  next
    case bs
    thus ?thesis by (simp add: jsonEscape_def unescape_def)
  next
    case b
    thus ?thesis by (simp add: jsonEscape_def unescape_def)
  next
    case f
    thus ?thesis by (simp add: jsonEscape_def unescape_def)
  next
    case n
    thus ?thesis by (simp add: jsonEscape_def unescape_def)
  next
    case r
    thus ?thesis by (simp add: jsonEscape_def unescape_def)
  next
    case t
    thus ?thesis by (simp add: jsonEscape_def unescape_def)
  next
    case u
    have d: "?n div 16 < 16" "?n mod 16 < 16" using u(1) by simp_all
    have z: "hexVal CHR ''0'' = Some 0" by (simp add: hexVal_def)
    have "16 * (?n div 16) + ?n mod 16 = ?n" by simp
    hence c: "char_of (16 * (?n div 16) + ?n mod 16) = c" by simp
    have e: "jsonEscape c =
        [CHR 0x5C, CHR ''u'', CHR ''0'', CHR ''0'', hexDigit (?n div 16), hexDigit (?n mod 16)]"
      using u by (simp add: jsonEscape_def Let_def)
    show ?thesis
      unfolding e by (simp add: z hexVal_hexDigit [OF d(1)] hexVal_hexDigit [OF d(2)] c)
  next
    case plain
    hence ne: "c \<noteq> CHR 0x22" "c \<noteq> CHR 0x5C" by auto
    have e: "jsonEscape c = [c]" using plain by (simp add: jsonEscape_def Let_def)
    show ?thesis unfolding e using plain(1) ne by simp
  qed
qed

lemma unquote_escaped:
  "unquote (concat (map jsonEscape s) @ CHR 0x22 # rest) = Some (s, rest)"
proof (induction s)
  case Nil
  show ?case by simp
next
  case (Cons c s)
  have "unquote (concat (map jsonEscape (c # s)) @ CHR 0x22 # rest)
      = unquote (jsonEscape c @ (concat (map jsonEscape s) @ CHR 0x22 # rest))"
    by simp
  also have "\<dots> = consFst c (Some (s, rest))"
    unfolding unquote_jsonEscape Cons.IH ..
  finally show ?case by (simp add: consFst_def)
qed

lemma parseElems_quoted_last:
  "parseElems (jsonQuote x @ [CHR '']'']) = Some [x]"
proof -
  have "parseElems (CHR 0x22 # concat (map jsonEscape x) @ CHR 0x22 # [CHR '']'']) = Some [x]"
    by (subst parseElems.simps) (simp add: unquote_escaped)
  thus ?thesis by (simp add: jsonQuote_def)
qed

lemma parseElems_quoted_more:
  "parseElems (jsonQuote x @ CHR '','' # rest) =
     (case parseElems rest of None \<Rightarrow> None | Some xs \<Rightarrow> Some (x # xs))"
proof -
  have "parseElems (CHR 0x22 # concat (map jsonEscape x) @ CHR 0x22 # CHR '','' # rest) =
     (case parseElems rest of None \<Rightarrow> None | Some xs \<Rightarrow> Some (x # xs))"
    by (subst parseElems.simps) (simp add: unquote_escaped)
  thus ?thesis by (simp add: jsonQuote_def)
qed

lemma parseElems_commaJoin:
  "parseElems (commaJoin (map jsonQuote (x # xs)) @ [CHR '']'']) = Some (x # xs)"
proof (induction xs arbitrary: x)
  case Nil
  show ?case by (simp add: parseElems_quoted_last)
next
  case (Cons y ys)
  have "commaJoin (map jsonQuote (x # y # ys)) @ [CHR '']'']
      = jsonQuote x @ CHR '','' # (commaJoin (map jsonQuote (y # ys)) @ [CHR '']''])"
    by simp
  thus ?case by (simp only: parseElems_quoted_more Cons.IH option.case)
qed

lemma jsonQuote_not_bracket: "commaJoin (map jsonQuote (x # xs)) @ [CHR '']''] \<noteq> [CHR '']'']"
  by (cases xs) (simp_all add: jsonQuote_def)

lemma JSON_parse_stringify: "JSON_parse (JSON_stringify xs) = Some xs"
proof (cases xs)
  case Nil
  thus ?thesis by (simp add: JSON_parse_def JSON_stringify_def)
next
  case (Cons y ys)
  thus ?thesis
    using jsonQuote_not_bracket [of y ys] parseElems_commaJoin [of y ys]
    by (simp add: JSON_parse_def JSON_stringify_def)
qed

end
